theory Spec2Isabelle
  imports Main "HOL-Library.AList"
begin

section \<open>Errors\<close>

text \<open>
  Every exception the modelled Python code can raise is a value. A function that can
  raise returns \<open>error + 'a\<close>, with \<open>Inl\<close> carrying the exception.
  The two user-level errors carry their message, \<open>AttributeError\<close> the missing attribute.
\<close>

datatype error =
    SemanticError string
  | InternalError string
  | AttributeError string
  | KeyError
  | IndexError
  | StopIteration
  | TypeError
  | ValueError
  | SystemExit int
  | ZeroDivisionError
  | RecursionError
  | UnboundLocalError

definition bind_err :: "error + 'a \<Rightarrow> ('a \<Rightarrow> error + 'b) \<Rightarrow> error + 'b" where
  "bind_err r f = (case r of Inl e \<Rightarrow> Inl e | Inr x \<Rightarrow> f x)"

text \<open>A comprehension over a list, left to right, stopping at the first exception.\<close>

fun map_err :: "('a \<Rightarrow> error + 'b) \<Rightarrow> 'a list \<Rightarrow> error + 'b list" where
  "map_err f [] = Inr []"
| "map_err f (x # xs) =
     (case f x of
        Inl e \<Rightarrow> Inl e
      | Inr y \<Rightarrow> (case map_err f xs of Inl e \<Rightarrow> Inl e | Inr ys \<Rightarrow> Inr (y # ys)))"

section \<open>Dictionaries\<close>

text \<open>
  A Python \<open>dict\<close> keeps its keys in insertion order and the modelled code iterates
  over some of them, so a dictionary is an association list with distinct keys:
  \<open>d[k]\<close> is \<open>dict_get\<close> (raising \<open>KeyError\<close> on a missing key), \<open>d[k] = v\<close> is
  \<open>dict_set\<close> (replacing in place, or appending a new key), \<open>k in d\<close> is
  \<open>k \<in> dict_keys d\<close>.
\<close>

type_synonym ('k, 'v) dict = "('k \<times> 'v) list"

definition dict_get :: "('k, 'v) dict \<Rightarrow> 'k \<Rightarrow> error + 'v" where
  "dict_get d k = (case map_of d k of None \<Rightarrow> Inl KeyError | Some v \<Rightarrow> Inr v)"

definition dict_set :: "('k, 'v) dict \<Rightarrow> 'k \<Rightarrow> 'v \<Rightarrow> ('k, 'v) dict" where
  "dict_set d k v = AList.update k v d"


section \<open>Coordinate serialization\<close>

text \<open>
  \<^verbatim>\<open>
  def Serialize(vec, tile_size):
      return sum((vec[i]*reduce(operator.mul, tile_size[:i])
                  for i in range(1, len(tile_size))), next(iter(vec)))
  \<close>
  The start value \<open>next(iter(vec))\<close> is evaluated before the generator is consumed, so an
  empty \<open>vec\<close> raises \<open>StopIteration\<close>; then \<open>vec[i]\<close> raises \<open>IndexError\<close> for the first
  \<open>i\<close> in \<open>range(1, len(tile_size))\<close> that is not an index of \<open>vec\<close>. \<open>tile_size[:i]\<close> is
  never empty there, so \<open>reduce\<close> without an initial value is the product of the slice.
\<close>

definition Serialize :: "int list \<Rightarrow> int list \<Rightarrow> error + int" where
  "Serialize vec tile_size =
     (case vec of
        [] \<Rightarrow> Inl StopIteration
      | v0 # _ \<Rightarrow>
          (if \<exists>i \<in> set [1..<length tile_size]. length vec \<le> i then Inl IndexError
           else Inr (v0 + sum_list (map (\<lambda>i. vec ! i * prod_list (take i tile_size))
                                      [1..<length tile_size]))))"

text \<open>
  \<^verbatim>\<open>
  def SerializeIterative(iterative, tile_size):
      return [Serialize(x, tile_size) for x in iterative]
  \<close>
\<close>

definition SerializeIterative :: "int list list \<Rightarrow> int list \<Rightarrow> error + int list" where
  "SerializeIterative iterative tile_size = map_err (\<lambda>x. Serialize x tile_size) iterative"

text \<open>The value \<open>Serialize\<close> returns on a vector that is long enough, as a plain function.\<close>

definition ser_val :: "int list \<Rightarrow> int list \<Rightarrow> int" where
  "ser_val vec T = vec ! 0 + (\<Sum>i \<leftarrow> [1..<length T]. vec ! i * prod_list (take i T))"

section \<open>Formatting\<close>




section \<open>Definition nodes\<close>

text \<open>
  Modelled from the spec: the node classes of \<open>soda.grammar\<close> (\<open>Input\<close>, \<open>Local\<close>,
  \<open>Output\<close>, with their expressions and loads) are not among the sources. The core reads
  from a definition its name, scalar type, channel count, its expression alternatives, each
  with a store index and a list of loads (a referenced name and a relative index vector), and
  the optional source of a preserved border.
\<close>

record Load =
  load_name :: string
  load_idx :: "int list"

record StageExpr =
  expr_idx :: "int list"
  expr_loads :: "Load list"

datatype node_class = InputNode | LocalNode | OutputNode

record Node =
  node_class :: node_class
  node_name :: string
  node_type :: string
  node_chan :: int
  node_expr :: "StageExpr list"
  preserve_border :: "string option"

section \<open>Graph entities\<close>

text \<open>
  \<open>Tensor\<close> and \<open>Stage\<close> objects refer to each other; the model keeps them in the two
  dictionaries of the \<open>Stencil\<close>, \<open>tensors\<close> and \<open>stages\<close>, both keyed by name, and
  writes every reference as the name of the object referred to: \<open>parent\<close>, \<open>children\<close>,
  \<open>inputs\<close>, \<open>output\<close> and the members of \<open>chronological_tensors\<close>. A \<open>Stage\<close> takes
  its \<open>name\<close> from its output tensor, so \<open>output\<close> is also the stage's name.
  \<open>children\<close> is a Python set; the list gives its members in the order the set is iterated.
  \<open>inputs\<close> maps each name to the tensor of that name; the list gives its keys in order.
\<close>

record Tensor =
  tensor_name :: string
  tensor_type :: string
  tensor_chan :: int
  tensor_idx :: "int list option"
  parent :: "string option"
  children :: "string list"
  tensor_offset :: int
  tensor_border :: "string list option"

record Stage =
  window :: "(string, int list list) dict"
  stage_offset :: "(string, int list) dict"
  delay :: "(string, int) dict"
  expr :: "StageExpr list"
  inputs :: "string list"
  stage_output :: string
  stage_border :: "string option"

text \<open>
  \<^verbatim>\<open>
  class Tensor(object):
      def __init__(self, node):
          self.name = node.name
          self.type = node.type
          self.chan = node.chan
          if isinstance(node, soda.grammar.Output):
              self.idx = next(iter(node.expr)).idx
              for e in node.expr:
                  if e.idx != self.idx:
                      raise InternalError('Normalization went wrong')
          elif isinstance(node, soda.grammar.Local):
              (the same)
          else:
              self.idx = None
          self.parent = None
          self.children = set()
          self.offset = 0
          self.border = None
  \<close>
\<close>

definition Tensor_init :: "Node \<Rightarrow> error + Tensor" where
  "Tensor_init node =
     (let mk = (\<lambda>i. \<lparr>tensor_name = node_name node, tensor_type = node_type node,
                       tensor_chan = node_chan node, tensor_idx = i, parent = None,
                       children = [], tensor_offset = 0, tensor_border = None\<rparr>)
      in if node_class node = OutputNode \<or> node_class node = LocalNode then
           (case node_expr node of
              [] \<Rightarrow> Inl StopIteration
            | e # _ \<Rightarrow>
                if \<exists>e' \<in> set (node_expr node). expr_idx e' \<noteq> expr_idx e
                then Inl (InternalError ''Normalization went wrong'')
                else Inr (mk (Some (expr_idx e))))
         else Inr (mk None))"

section \<open>The stencil\<close>

text \<open>
  The attributes of a \<open>Stencil\<close> object that the modelled functions read or write. An
  attribute that \<open>__init__\<close> has not assigned yet is \<open>None\<close>; reading it raises
  \<open>AttributeError\<close>.
\<close>

record Stencil =
  tile_size :: "int list"
  unroll_factor :: int
  replication_factor :: int
  dim :: int
  tensors :: "(string, Tensor) dict"
  stages :: "(string, Stage) dict"
  stencil_input :: "string option"
  stencil_output :: "string option"
  chronological_tensors :: "string list"

definition getattr_input :: "Stencil \<Rightarrow> error + string" where
  "getattr_input self = (case stencil_input self of None \<Rightarrow> Inl (AttributeError ''input'') | Some t \<Rightarrow> Inr t)"

definition getattr_output :: "Stencil \<Rightarrow> error + string" where
  "getattr_output self = (case stencil_output self of None \<Rightarrow> Inl (AttributeError ''output'') | Some t \<Rightarrow> Inr t)"

subsection \<open>Construction: validation\<close>





subsection \<open>Construction: the tensors\<close>

text \<open>
  \<^verbatim>\<open>
  self.tensors = {i.name: Tensor(i) for i in locals}
  if input_node.name in local_names:
      raise SemanticError('input name conflict with tensor: %s' % self.input.name)
  else:
      self.input = Tensor(input_node)
      self.tensors[self.input.name] = self.input
  if output_node.name in local_names:
      raise SemanticError('output name conflict with tensor: %s' % self.output.name)
  else:
      self.output = Tensor(output_node)
      self.tensors[self.output.name] = self.output
  \<close>
  \<open>local_names\<close> is the set of names of the locals passed to the constructor; \<open>locals\<close> is
  the list after iteration expansion has appended its copies. The operand of a \<open>raise\<close> is
  evaluated first, and with it the attribute \<open>self.input\<close> (or \<open>self.output\<close>) the message
  reads.
\<close>

definition Stencil_init_tensors ::
  "Stencil \<Rightarrow> Node list \<Rightarrow> string set \<Rightarrow> Node \<Rightarrow> Node \<Rightarrow> error + Stencil" where
  "Stencil_init_tensors self locals local_names input_node output_node =
     bind_err (map_err Tensor_init locals) (\<lambda>ts.
     let self1 = self\<lparr>tensors := fold (\<lambda>t d. dict_set d (tensor_name t) t) ts []\<rparr> in
     bind_err
       (if node_name input_node \<in> local_names
        then bind_err (getattr_input self1) (\<lambda>n.
               Inl (SemanticError (''input name conflict with tensor: '' @ n)))
        else bind_err (Tensor_init input_node) (\<lambda>t.
               Inr (self1\<lparr>stencil_input := Some (tensor_name t),
                          tensors := dict_set (tensors self1) (tensor_name t) t\<rparr>)))
       (\<lambda>self2.
     if node_name output_node \<in> local_names
     then bind_err (getattr_output self2) (\<lambda>n.
            Inl (SemanticError (''output name conflict with tensor: '' @ n)))
     else bind_err (Tensor_init output_node) (\<lambda>t.
            Inr (self2\<lparr>stencil_output := Some (tensor_name t),
                       tensors := dict_set (tensors self2) (tensor_name t) t\<rparr>))))"

text \<open>A \<open>Stencil\<close> object on which none of the modelled attributes is assigned yet.\<close>

definition new_Stencil :: "int list \<Rightarrow> int \<Rightarrow> int \<Rightarrow> int \<Rightarrow> Stencil" where
  "new_Stencil ts u r d =
     \<lparr>tile_size = ts, unroll_factor = u, replication_factor = r, dim = d,
      tensors = [], stages = [], stencil_input = None, stencil_output = None,
      chronological_tensors = []\<rparr>"

subsection \<open>Concrete constructor arguments\<close>


definition collide_local :: Node where
  "collide_local = \<lparr>node_class = LocalNode, node_name = ''a'', node_type = ''float'', node_chan = 1,
      node_expr = [\<lparr>expr_idx = [0], expr_loads = [\<lparr>load_name = ''a'', load_idx = [0]\<rparr>]\<rparr>],
      preserve_border = None\<rparr>"

definition collide_input :: Node where
  "collide_input = \<lparr>node_class = InputNode, node_name = ''a'', node_type = ''float'', node_chan = 1,
      node_expr = [], preserve_border = None\<rparr>"

definition collide_output :: Node where
  "collide_output = \<lparr>node_class = OutputNode, node_name = ''b'', node_type = ''float'', node_chan = 1,
      node_expr = [\<lparr>expr_idx = [0], expr_loads = [\<lparr>load_name = ''a'', load_idx = [0]\<rparr>]\<rparr>],
      preserve_border = None\<rparr>"

section \<open>Reuse chains, points and buffers\<close>

text \<open>
  The module-level helpers take a tensor \<open>b\<close> and walk \<open>b.children\<close>, a set of \<open>Stage\<close>
  objects. In the model the children are names, resolved in the \<open>stages\<close> dictionary that is
  passed along; a name that is not a key there stands for no object of the program, and
  resolving it is reported as \<open>KeyError\<close>.
\<close>

definition child_stages :: "(string, Stage) dict \<Rightarrow> Tensor \<Rightarrow> error + Stage list" where
  "child_stages stgs b = map_err (dict_get stgs) (children b)"

text \<open>
  \<^verbatim>\<open>
  def _GetChains(tile_size, b, unroll_factor):
      A_dag = set.union(*[
          (lambda offsets: set.union(*[
              {max(offsets)+i-x+s.delay[b.name] for x in offsets}
              for i in range(unroll_factor)]))
          (SerializeIterative(s.window[b.name], tile_size)) for s in b.children])
      chains = sum(reversed([
          tuple([tuple(sorted(x for x in A_dag if x%unroll_factor == i))])
          for i in range(unroll_factor)]), ())
      return chains
  \<close>
  \<open>lane_taps\<close> is the value of the inner \<open>lambda\<close> for one consuming stage. \<open>set.union\<close>
  of no argument raises \<open>TypeError\<close>; \<open>max(offsets)\<close> and \<open>s.delay[b.name]\<close> are
  evaluated once per element of \<open>offsets\<close>, so neither is evaluated for an empty window.
\<close>

definition lane_taps :: "int list \<Rightarrow> string \<Rightarrow> int \<Rightarrow> Stage \<Rightarrow> error + int set" where
  "lane_taps tsize bname U s =
     bind_err (dict_get (window s) bname) (\<lambda>w.
     bind_err (SerializeIterative w tsize) (\<lambda>offsets.
     if U \<le> 0 then Inl TypeError
     else if offsets = [] then Inr {}
     else bind_err (dict_get (delay s) bname) (\<lambda>d.
       Inr (\<Union>i \<in> {0..<U}. (\<lambda>x. Max (set offsets) + i - x + d) ` set offsets))))"

definition A_dag :: "(string, Stage) dict \<Rightarrow> int list \<Rightarrow> Tensor \<Rightarrow> int \<Rightarrow> error + int set" where
  "A_dag stgs tsize b U =
     bind_err (child_stages stgs b) (\<lambda>ss.
     bind_err (map_err (lane_taps tsize (tensor_name b) U) ss) (\<lambda>sets.
     if sets = [] then Inl TypeError else Inr (\<Union> (set sets))))"

definition chains_of :: "int set \<Rightarrow> int \<Rightarrow> int list list" where
  "chains_of A U = map (\<lambda>i. sorted_list_of_set {x \<in> A. x mod U = i}) (rev [0..U - 1])"

definition GetChains ::
  "(string, Stage) dict \<Rightarrow> int list \<Rightarrow> Tensor \<Rightarrow> int \<Rightarrow> error + int list list" where
  "GetChains stgs tsize b U = bind_err (A_dag stgs tsize b U) (\<lambda>A. Inr (chains_of A U))"

text \<open>
  \<^verbatim>\<open>
  def _GetBuffer(tile_size, b, unroll_factor):
      reuse_buffer = [None]  # [length, (start, end), (start, end), ...]
      offsets = []
      for chain in _GetChains(tile_size, b, unroll_factor):
          reuse_buffer.append((chain[0], chain[0]))
          offsets.append(chain[0])
          for j in range(len(chain)-1):
              reuse_buffer.append((chain[j], chain[j+1]))
              offsets.append(chain[j+1])
      reuse_buffer[0] = max(offsets)+1
      return reuse_buffer
  \<close>
  A reuse buffer is the pair of its first element, the length, and the list of links that
  follow it. \<open>chain_links\<close> is one turn of the outer loop: the links and the offsets it
  appends.
\<close>

type_synonym reuse_buffer = "int \<times> (int \<times> int) list"

fun chain_links :: "int list \<Rightarrow> error + ((int \<times> int) list \<times> int list)" where
  "chain_links [] = Inl IndexError"
| "chain_links (c # cs) = Inr ((c, c) # zip (c # cs) cs, c # cs)"

definition buffer_of_links ::
  "((int \<times> int) list \<times> int list) list \<Rightarrow> error + reuse_buffer" where
  "buffer_of_links parts =
     (let offsets = concat (map snd parts)
      in if offsets = [] then Inl ValueError
         else Inr (Max (set offsets) + 1, concat (map fst parts)))"

definition GetBuffer ::
  "(string, Stage) dict \<Rightarrow> int list \<Rightarrow> Tensor \<Rightarrow> int \<Rightarrow> error + reuse_buffer" where
  "GetBuffer stgs tsize b U =
     bind_err (GetChains stgs tsize b U) (\<lambda>chains.
     bind_err (map_err chain_links chains) buffer_of_links)"

text \<open>
  \<^verbatim>\<open>
  def _get_replicated_reuse_chains(tile_size, tensor, replication_factor):
      A_dag = set()
      for stage in tensor.children:
          offsets = SerializeIterative(stage.window[tensor.name], tile_size)
          A_dag |=  {max(offsets)-offset+stage.delay[tensor.name]
              for offset in offsets}
      chains = sum(reversed([
          tuple([tuple(sorted(x for x in A_dag if x%replication_factor == i))])
          for i in range(replication_factor)]), ())
      return chains
  \<close>
\<close>

definition replicated_taps :: "int list \<Rightarrow> string \<Rightarrow> Stage \<Rightarrow> error + int set" where
  "replicated_taps tsize bname s =
     bind_err (dict_get (window s) bname) (\<lambda>w.
     bind_err (SerializeIterative w tsize) (\<lambda>offsets.
     if offsets = [] then Inr {}
     else bind_err (dict_get (delay s) bname) (\<lambda>d.
       Inr ((\<lambda>offset. Max (set offsets) - offset + d) ` set offsets))))"

definition replicated_A_dag ::
  "(string, Stage) dict \<Rightarrow> int list \<Rightarrow> Tensor \<Rightarrow> error + int set" where
  "replicated_A_dag stgs tsize b =
     bind_err (child_stages stgs b) (\<lambda>ss.
     bind_err (map_err (replicated_taps tsize (tensor_name b)) ss) (\<lambda>sets.
     Inr (\<Union> (set sets))))"

definition get_replicated_reuse_chains ::
  "(string, Stage) dict \<Rightarrow> int list \<Rightarrow> Tensor \<Rightarrow> int \<Rightarrow> error + int list list" where
  "get_replicated_reuse_chains stgs tsize b R =
     bind_err (replicated_A_dag stgs tsize b) (\<lambda>A. Inr (chains_of A R))"




text \<open>
  \<^verbatim>\<open>
  def _get_replicated_reuse_buffer(tile_size, tensor, replication_factor):
      reuse_buffer = [None] # [length, (start, end), (start, end), ...]
      offsets = []
      for chain in _get_replicated_reuse_chains(tile_size, tensor,
              replication_factor):
          if len(chain) > 0:
              reuse_buffer.append((chain[0], chain[0]))
              offsets.append(chain[0])
              for j in range(len(chain)-1):
                  reuse_buffer.append((chain[j], chain[j+1]))
                  offsets.append(chain[j+1])
      reuse_buffer[0] = max(offsets)+1
      return reuse_buffer
  \<close>
\<close>

definition get_replicated_reuse_buffer ::
  "(string, Stage) dict \<Rightarrow> int list \<Rightarrow> Tensor \<Rightarrow> int \<Rightarrow> error + reuse_buffer" where
  "get_replicated_reuse_buffer stgs tsize b R =
     bind_err (get_replicated_reuse_chains stgs tsize b R) (\<lambda>chains.
     bind_err (map_err chain_links (filter (\<lambda>chain. length chain > 0) chains)) buffer_of_links)"





subsection \<open>The reuse structures in the words of the specification\<close>

text \<open>
  The serialized window a stage reads from a tensor and the delay it stores for it, as plain
  values; \<open>consumer_ok\<close> says that both exist: the stage has a non-empty window for the
  tensor, every index vector of it serializes, and a delay is stored.
\<close>

definition offsets_of :: "int list \<Rightarrow> string \<Rightarrow> Stage \<Rightarrow> int list" where
  "offsets_of tsize bname s =
     (case bind_err (dict_get (window s) bname) (\<lambda>w. SerializeIterative w tsize) of
        Inr offsets \<Rightarrow> offsets
      | Inl _ \<Rightarrow> [])"

definition delay_of :: "string \<Rightarrow> Stage \<Rightarrow> int" where
  "delay_of bname s = (case map_of (delay s) bname of Some d \<Rightarrow> d | None \<Rightarrow> 0)"

definition consumer_ok :: "int list \<Rightarrow> string \<Rightarrow> Stage \<Rightarrow> bool" where
  "consumer_ok tsize bname s =
     ((case bind_err (dict_get (window s) bname) (\<lambda>w. SerializeIterative w tsize) of
         Inr offsets \<Rightarrow> offsets \<noteq> []
       | Inl _ \<Rightarrow> False)
      \<and> map_of (delay s) bname \<noteq> None)"

text \<open>
  \<open>A\<^sup>\<dagger>\<close> of the unrolled variant: the union over the consuming stages \<open>s\<close> and the lanes
  \<open>u \<in> [0, U)\<close> of \<open>{max_offset(s,b) + u - x + delay[s][b] : x \<in> serialized_windows(s,b)}\<close>.
\<close>

definition unrolled_taps :: "int list \<Rightarrow> string \<Rightarrow> int \<Rightarrow> Stage list \<Rightarrow> int set" where
  "unrolled_taps tsize bname U ss =
     (\<Union>s \<in> set ss. \<Union>u \<in> {0..<U}.
        (\<lambda>x. Max (set (offsets_of tsize bname s)) + u - x + delay_of bname s)
          ` set (offsets_of tsize bname s))"


text \<open>
  The links of one residue class \<open>r\<close> of \<open>A\<^sup>\<dagger>\<close> modulo \<open>U\<close>: a self-link at the smallest
  element, then the adjacent pairs of the class in ascending order. The buffer: the length
  \<open>max(A\<^sup>\<dagger>) + 1\<close>, then the links of the classes in descending order of the residue.
\<close>

definition class_links :: "int set \<Rightarrow> int \<Rightarrow> int \<Rightarrow> (int \<times> int) list" where
  "class_links A U r =
     (let C = {x \<in> A. x mod U = r}; c = sorted_list_of_set C
      in (Min C, Min C) # map (\<lambda>i. (c ! i, c ! Suc i)) [0..<length c - 1])"

definition spec_buffer :: "int set \<Rightarrow> int \<Rightarrow> reuse_buffer" where
  "spec_buffer A U = (Max A + 1, concat (map (class_links A U) (rev [0..U - 1])))"

text \<open>
  The length the code records for a link: \<open>end // U\<close> for a self-link (the link that
  opens the chain of a lane) whose tap is at least \<open>U\<close>, and \<open>(end - start) // U\<close> for
  every other link.
\<close>

definition link_length :: "int \<Rightarrow> int \<Rightarrow> int \<Rightarrow> int" where
  "link_length U start endp =
     (if start = endp \<and> U \<le> start then endp div U else (endp - start) div U)"


section \<open>Reuse buffers of a stencil\<close>

text \<open>
  \<^verbatim>\<open>
  def GetProducerTensors(self):
      return [b for b in self.tensors.values() if len(b.children)>0]
  \<close>
\<close>

definition GetProducerTensors :: "Stencil \<Rightarrow> Tensor list" where
  "GetProducerTensors self = filter (\<lambda>b. length (children b) > 0) (map snd (tensors self))"

text \<open>
  \<^verbatim>\<open>
  def GetReuseBuffers(self):
      if not hasattr(self, 'reuse_buffers'):
          unroll_factor = self.unroll_factor
          self.reuse_buffer_lengths = {}
          self.reuse_buffers = {}
          for b in self.GetProducerTensors():
              reuse_buffer = _GetBuffer(self.tile_size, b, unroll_factor)
              reuse_buffer_length = {}
              self.reuse_buffers[b.name] = reuse_buffer
              self.reuse_buffer_lengths[b.name] = reuse_buffer_length
              first = [True]*unroll_factor
              for start, end in reuse_buffer[1:]:
                  if first[start%unroll_factor]:
                      first[start%unroll_factor] = False
                      if start >= unroll_factor:
                          reuse_buffer_length[end] = end//unroll_factor
                          continue
                  reuse_buffer_length[end] = (end-start)//unroll_factor
      return self.reuse_buffers
  \<close>
  \<open>reuse_lengths_loop\<close> is the inner loop, on the list \<open>first\<close> and the dictionary
  \<open>reuse_buffer_length\<close>; \<open>start%unroll_factor\<close> divides by zero when the factor is 0
  and indexes the empty list when it is negative. The method caches its result on the
  object; the model returns both dictionaries it fills, the reuse buffers and their lengths.
\<close>

fun reuse_lengths_loop ::
  "int \<Rightarrow> (int \<times> int) list \<Rightarrow> bool list \<Rightarrow> (int, int) dict
     \<Rightarrow> error + (bool list \<times> (int, int) dict)" where
  "reuse_lengths_loop U [] first lens = Inr (first, lens)"
| "reuse_lengths_loop U ((start, endp) # links) first lens =
     (if U = 0 then Inl ZeroDivisionError
      else if \<not> (0 \<le> start mod U \<and> nat (start mod U) < length first) then Inl IndexError
      else if first ! nat (start mod U) then
        (if start \<ge> U
         then reuse_lengths_loop U links (first[nat (start mod U) := False])
                (dict_set lens endp (endp div U))
         else reuse_lengths_loop U links (first[nat (start mod U) := False])
                (dict_set lens endp ((endp - start) div U)))
      else reuse_lengths_loop U links first (dict_set lens endp ((endp - start) div U)))"

definition reuse_buffer_length_of :: "int \<Rightarrow> reuse_buffer \<Rightarrow> error + (int, int) dict" where
  "reuse_buffer_length_of U reuse_buffer =
     bind_err (reuse_lengths_loop U (snd reuse_buffer) (replicate (nat U) True) [])
              (\<lambda>(first, lens). Inr lens)"

fun reuse_buffers_loop ::
  "Stencil \<Rightarrow> Tensor list \<Rightarrow> (string, reuse_buffer) dict \<times> (string, (int, int) dict) dict
     \<Rightarrow> error + ((string, reuse_buffer) dict \<times> (string, (int, int) dict) dict)" where
  "reuse_buffers_loop self [] acc = Inr acc"
| "reuse_buffers_loop self (b # bs) acc =
     bind_err (GetBuffer (stages self) (tile_size self) b (unroll_factor self)) (\<lambda>reuse_buffer.
     bind_err (reuse_buffer_length_of (unroll_factor self) reuse_buffer) (\<lambda>lens.
     reuse_buffers_loop self bs
       (dict_set (fst acc) (tensor_name b) reuse_buffer, dict_set (snd acc) (tensor_name b) lens)))"

definition GetReuseBuffers ::
  "Stencil \<Rightarrow> error + ((string, reuse_buffer) dict \<times> (string, (int, int) dict) dict)" where
  "GetReuseBuffers self = reuse_buffers_loop self (GetProducerTensors self) ([], [])"






section \<open>Concrete stencils\<close>

text \<open>
  A tensor \<open>b\<close> on a tile of width 4, read by two stages: \<open>s1\<close> through a four-point window
  with delay 2, and \<open>s2\<close> at the origin with no delay.
\<close>

definition mk_tensor :: "string \<Rightarrow> string list \<Rightarrow> Tensor" where
  "mk_tensor n cs = \<lparr>tensor_name = n, tensor_type = ''float'', tensor_chan = 1, tensor_idx = None,
     parent = None, children = cs, tensor_offset = 0, tensor_border = None\<rparr>"

definition mk_stage :: "string \<Rightarrow> string \<Rightarrow> int list list \<Rightarrow> int list \<Rightarrow> int \<Rightarrow> Stage" where
  "mk_stage n b w offs d = \<lparr>window = [(b, w)], stage_offset = [(b, offs)], delay = [(b, d)],
     expr = [\<lparr>expr_idx = [0, 0], expr_loads = map (\<lambda>i. \<lparr>load_name = b, load_idx = i\<rparr>) w\<rparr>],
     inputs = [b], stage_output = n, stage_border = None\<rparr>"

definition two_consumers :: "int \<Rightarrow> Stencil" where
  "two_consumers U =
     \<lparr>tile_size = [4, 0], unroll_factor = U, replication_factor = 1, dim = 2,
      tensors = [(''b'', mk_tensor ''b'' [''s1'', ''s2'']), (''s1'', mk_tensor ''s1'' []),
                 (''s2'', mk_tensor ''s2'' [])],
      stages = [(''s1'', mk_stage ''s1'' ''b'' [[-1, 0], [0, 0], [1, 0], [0, 1]] [-1, 0, 1, 4] 2),
                (''s2'', mk_stage ''s2'' ''b'' [[0, 0]] [0] 0)],
      stencil_input = Some ''b'', stencil_output = Some ''s2'',
      chronological_tensors = [''b'', ''s2'', ''s1'']\<rparr>"

text \<open>A tensor \<open>b\<close> read by one stage at the origin, with a delay \<open>d\<close>.\<close>

definition one_consumer :: "int \<Rightarrow> int \<Rightarrow> Stencil" where
  "one_consumer U d =
     \<lparr>tile_size = [4, 0], unroll_factor = U, replication_factor = U, dim = 2,
      tensors = [(''b'', mk_tensor ''b'' [''s'']), (''s'', mk_tensor ''s'' [])],
      stages = [(''s'', mk_stage ''s'' ''b'' [[0, 0]] [0] d)],
      stencil_input = Some ''b'', stencil_output = Some ''s'',
      chronological_tensors = [''b'', ''s'']\<rparr>"

section \<open>Border windows\<close>

text \<open>
  \<^verbatim>\<open>
  def GetOverallStencilWindow(input_tensor, output_tensor):
      # normalize store index to 0
      if (id(input_tensor), id(output_tensor)) in _overall_stencil_window_cache:
          return _overall_stencil_window_cache[(id(input_tensor), id(output_tensor))]
      all_points = set()
      if output_tensor.parent is not None:
          for name, points in output_tensor.parent.window.items():
              if name != input_tensor.name:
                  recursive_points = GetOverallStencilWindow(input_tensor, output_tensor.parent.inputs[name])
                  all_points |= set.union(*[{tuple(map(lambda a, b, c: a + b - c, p, point, output_tensor.idx)) for p in recursive_points} for point in points])
              else:
                  all_points |= set(tuple(map(operator.sub, point, output_tensor.idx)) for point in points)
      _overall_stencil_window_cache[(id(input_tensor), id(output_tensor))] = all_points
      return all_points
  \<close>
  The cache only stores results, so the function is modelled without it. Python bounds the
  depth of the recursion: \<open>limit\<close> is the number of nested calls still allowed, and a call
  beyond it raises \<open>RecursionError\<close>. \<open>map\<close> stops at the shortest of its arguments and
  raises \<open>TypeError\<close> on an index that is \<open>None\<close>; it is only called when there is a point
  to map.
\<close>

definition shift_point :: "int list \<Rightarrow> int list \<Rightarrow> int list \<Rightarrow> int list" where
  "shift_point p point idx = map (\<lambda>(a, b, c). a + b - c) (zip p (zip point idx))"

definition sub_point :: "int list \<Rightarrow> int list \<Rightarrow> int list" where
  "sub_point point idx = map (\<lambda>(a, b). a - b) (zip point idx)"

fun GetOverallStencilWindow :: "nat \<Rightarrow> Stencil \<Rightarrow> Tensor \<Rightarrow> Tensor \<Rightarrow> error + int list set"
  and overall_window_loop ::
    "nat \<Rightarrow> Stencil \<Rightarrow> Tensor \<Rightarrow> Tensor \<Rightarrow> Stage \<Rightarrow> (string \<times> int list list) list
       \<Rightarrow> int list set \<Rightarrow> error + int list set" where
  "GetOverallStencilWindow 0 self input_tensor output_tensor = Inl RecursionError"
| "GetOverallStencilWindow (Suc limit) self input_tensor output_tensor =
     (case parent output_tensor of
        None \<Rightarrow> Inr {}
      | Some pn \<Rightarrow>
          bind_err (dict_get (stages self) pn) (\<lambda>stage.
          overall_window_loop limit self input_tensor output_tensor stage (window stage) {}))"
| "overall_window_loop limit self input_tensor output_tensor stage [] all_points = Inr all_points"
| "overall_window_loop limit self input_tensor output_tensor stage ((name, points) # rest) all_points =
     (if name \<noteq> tensor_name input_tensor then
        (if name \<notin> set (inputs stage) then Inl KeyError
         else bind_err (dict_get (tensors self) name) (\<lambda>t.
              bind_err (GetOverallStencilWindow limit self input_tensor t) (\<lambda>recursive_points.
              if points = [] then Inl TypeError
              else if recursive_points = {} then
                overall_window_loop limit self input_tensor output_tensor stage rest all_points
              else (case tensor_idx output_tensor of
                      None \<Rightarrow> Inl TypeError
                    | Some idx \<Rightarrow>
                        overall_window_loop limit self input_tensor output_tensor stage rest
                          (all_points \<union> (\<Union>point \<in> set points.
                                           (\<lambda>p. shift_point p point idx) ` recursive_points))))))
      else if points = [] then
        overall_window_loop limit self input_tensor output_tensor stage rest all_points
      else (case tensor_idx output_tensor of
              None \<Rightarrow> Inl TypeError
            | Some idx \<Rightarrow>
                overall_window_loop limit self input_tensor output_tensor stage rest
                  (all_points \<union> (\<lambda>point. sub_point point idx) ` set points)))"





section \<open>Forwarding descriptors\<close>




















section \<open>The causal scheduler\<close>














subsection \<open>A pipeline with a backward-looking stage and an unreachable part\<close>



subsection \<open>Invariants of the scheduler\<close>




section \<open>Properties of serialization\<close>


lemma Serialize_same_length:
  assumes "vec \<noteq> []" and "length T \<le> length vec"
  shows "Serialize vec T =
           Inr (vec ! 0 + (\<Sum>i \<leftarrow> [1..<length T]. vec ! i * prod_list (take i T)))"
  using assms by (cases vec) (auto simp: Serialize_def)

lemma prod_list_take_pos:
  "i \<le> length T \<Longrightarrow> \<forall>j<i. (0::int) < T ! j \<Longrightarrow> 0 < prod_list (take i T)"
proof (induction i)
  case 0 then show ?case by simp
next
  case (Suc i)
  then have "take (Suc i) T = take i T @ [T ! i]" by (simp add: take_Suc_conv_app_nth)
  with Suc show ?case by (simp add: zero_less_mult_iff)
qed

lemma ser_val_update:
  assumes "i < length T" "length T \<le> length vec"
  shows "ser_val (vec[i := a]) T = ser_val vec T + (a - vec ! i) * prod_list (take i T)"
proof (cases i)
  case 0
  have "(\<Sum>k \<leftarrow> [1..<length T]. vec[0 := a] ! k * prod_list (take k T))
      = (\<Sum>k \<leftarrow> [1..<length T]. vec ! k * prod_list (take k T))"
    by (rule arg_cong[where f=sum_list], rule map_cong) auto
  moreover have "0 < length vec" using assms by linarith
  then have "vec[0 := a] ! 0 = a" by simp
  ultimately show ?thesis using 0 by (simp add: ser_val_def)
next
  case (Suc n)
  let ?c = "\<lambda>k. prod_list (take k T)"
  have i: "i \<in> {1..<length T}" using Suc assms by simp
  have "(\<Sum>k \<leftarrow> [1..<length T]. vec[i := a] ! k * ?c k)
      = (\<Sum>k \<in> {1..<length T}. vec[i := a] ! k * ?c k)"
    by (simp add: interv_sum_list_conv_sum_set_nat)
  also have "\<dots> = vec[i := a] ! i * ?c i + (\<Sum>k \<in> {1..<length T} - {i}. vec[i := a] ! k * ?c k)"
    using i by (simp add: sum.remove)
  also have "(\<Sum>k \<in> {1..<length T} - {i}. vec[i := a] ! k * ?c k)
      = (\<Sum>k \<in> {1..<length T} - {i}. vec ! k * ?c k)"
    by (rule sum.cong) auto
  also have "vec[i := a] ! i = a" using assms by simp
  finally have A: "(\<Sum>k \<leftarrow> [1..<length T]. vec[i := a] ! k * ?c k)
      = a * ?c i + (\<Sum>k \<in> {1..<length T} - {i}. vec ! k * ?c k)" .
  have "(\<Sum>k \<leftarrow> [1..<length T]. vec ! k * ?c k) = (\<Sum>k \<in> {1..<length T}. vec ! k * ?c k)"
    by (simp add: interv_sum_list_conv_sum_set_nat)
  also have "\<dots> = vec ! i * ?c i + (\<Sum>k \<in> {1..<length T} - {i}. vec ! k * ?c k)"
    using i by (simp add: sum.remove)
  finally have B: "(\<Sum>k \<leftarrow> [1..<length T]. vec ! k * ?c k)
      = vec ! i * ?c i + (\<Sum>k \<in> {1..<length T} - {i}. vec ! k * ?c k)" .
  have "vec[i := a] ! 0 = vec ! 0" using Suc by simp
  with A B show ?thesis by (simp add: ser_val_def algebra_simps)
qed

lemma Serialize_ser_val:
  "vec \<noteq> [] \<Longrightarrow> length T \<le> length vec \<Longrightarrow> Serialize vec T = Inr (ser_val vec T)"
  by (simp add: Serialize_same_length ser_val_def)

lemma Serialize_zero:
  assumes "0 < n" "length T \<le> n"
  shows "Serialize (replicate n 0) T = Inr 0"
proof -
  have "(\<Sum>i \<in> {1..<length T}. replicate n (0::int) ! i * prod_list (take i T)) = 0"
    using assms by (intro sum.neutral) auto
  then have "ser_val (replicate n 0) T = 0"
    using assms by (simp add: ser_val_def interv_sum_list_conv_sum_set_nat)
  moreover have "replicate n (0::int) \<noteq> []" using assms by simp
  ultimately show ?thesis using assms by (simp add: Serialize_ser_val)
qed

text \<open>
  Claim C6, as the code has it. For a non-empty index vector \<open>vec\<close> and a tile-size vector
  \<open>T\<close> of the same length, \<open>Serialize\<close> returns
  \<open>vec[0] + \<Sum>\<^sub>i vec[i] * \<Prod>\<^sub>j\<^sub><\<^sub>i T[j]\<close>; the all-zero vector serializes to 0; and
  \<open>Serialize\<close> is strictly increasing in component \<open>i\<close>, the others fixed, whenever the
  tile sizes of all lower dimensions \<open>j < i\<close> are positive.
\<close>

theorem Serialize_linear:
  assumes "vec \<noteq> []" and "length vec = length T"
  shows "Serialize vec T =
           Inr (vec ! 0 + (\<Sum>i \<leftarrow> [1..<length T]. vec ! i * prod_list (take i T)))
       \<and> Serialize (replicate (length T) 0) T = Inr 0
       \<and> (\<forall>i a b. i < length T \<longrightarrow> (\<forall>j<i. 0 < T ! j) \<longrightarrow> a < b \<longrightarrow>
            (\<exists>x y. Serialize (vec[i := a]) T = Inr x \<and> Serialize (vec[i := b]) T = Inr y
                   \<and> x < y))"
proof (intro conjI allI impI)
  show "Serialize vec T =
           Inr (vec ! 0 + (\<Sum>i \<leftarrow> [1..<length T]. vec ! i * prod_list (take i T)))"
    using assms by (simp add: Serialize_same_length)
next
  show "Serialize (replicate (length T) 0) T = Inr 0"
    using assms by (intro Serialize_zero) auto
next
  fix i a b
  assume i: "i < length T" and pos: "\<forall>j<i. 0 < T ! j" and ab: "a < (b::int)"
  have p: "0 < prod_list (take i T)"
    using i pos by (intro prod_list_take_pos) auto
  have sa: "Serialize (vec[i := a]) T = Inr (ser_val (vec[i := a]) T)"
   and sb: "Serialize (vec[i := b]) T = Inr (ser_val (vec[i := b]) T)"
    using assms by (auto intro!: Serialize_ser_val)
  have "ser_val (vec[i := b]) T - ser_val (vec[i := a]) T = (b - a) * prod_list (take i T)"
    using i assms by (simp add: ser_val_update algebra_simps)
  moreover have "0 < (b - a) * prod_list (take i T)"
    using ab p by simp
  ultimately have "ser_val (vec[i := a]) T < ser_val (vec[i := b]) T" by linarith
  with sa sb show "\<exists>x y. Serialize (vec[i := a]) T = Inr x \<and> Serialize (vec[i := b]) T = Inr y
                   \<and> x < y" by blast
qed

theorem Serialize_linear_witness:
  "Serialize [3, 4] [10, 0] = Inr 43
   \<and> Serialize [0, 0] [10, 0] = Inr 0
   \<and> (\<exists>x y. Serialize [3, 4] [10, 0] = Inr x \<and> Serialize [3, 5] [10, 0] = Inr y \<and> x < y)"
proof -
  have ne: "[3, 4] \<noteq> ([] :: int list)" and len: "length [3, 4 :: int] = length [10, 0 :: int]"
    by simp_all
  note th = Serialize_linear [OF ne len]
  have f1: "Serialize [3, 4] [10, 0] = Inr 43" using th by simp
  have f2: "Serialize [0, 0] [10, 0] = Inr 0" using th by (simp add: numeral_2_eq_2)
  have "(1::nat) < length [10, 0 :: int] \<longrightarrow> (\<forall>j<1. 0 < [10, 0 :: int] ! j) \<longrightarrow> (4::int) < 5 \<longrightarrow>
      (\<exists>x y. Serialize ([3, 4][1 := 4]) [10, 0] = Inr x \<and> Serialize ([3, 4][1 := 5]) [10, 0] = Inr y
             \<and> x < y)"
    using th by blast
  then have f3: "\<exists>x y. Serialize [3, 4] [10, 0] = Inr x \<and> Serialize [3, 5] [10, 0] = Inr y \<and> x < y"
    by simp
  from f1 f2 f3 show ?thesis by blast
qed

text \<open>
  Without positive tile sizes the order is lost: with \<open>T = [0, 1]\<close> the second component has
  coefficient 0, so raising it from 0 to 1 leaves the serialized offset unchanged. And the
  empty vector (against the empty tile size, of the same length) raises \<open>StopIteration\<close>.
\<close>

theorem Serialize_not_increasing_counterexample:
  "(0::int) < 1 \<and> Serialize ([0, 0][1 := 0]) [0, 1] = Serialize ([0, 0][1 := 1]) [0, 1]
   \<and> Serialize [] [] = Inl StopIteration"
  by (simp add: Serialize_def)

section \<open>Properties of construction\<close>




text \<open>
  Claim C8 asks for a \<open>SemanticError\<close> when a local definition is named as the primary
  input. The constructor reaches its \<open>raise SemanticError\<close>, but the message reads
  \<open>self.input.name\<close> before \<open>self.input\<close> is assigned, so what is raised is an
  \<open>AttributeError\<close>.
\<close>

theorem name_collision_raises_AttributeError:
  "Stencil_init_tensors (new_Stencil [4] 1 1 1) [collide_local] {''a''} collide_input collide_output
     = Inl (AttributeError ''input'')"
  by (simp add: Stencil_init_tensors_def new_Stencil_def collide_local_def collide_input_def
      collide_output_def Tensor_init_def bind_err_def getattr_input_def dict_set_def)

section \<open>Properties of the reuse chains\<close>

lemma map_err_Inr:
  "(\<And>x. x \<in> set xs \<Longrightarrow> f x = Inr (g x)) \<Longrightarrow> map_err f xs = Inr (map g xs)"
  by (induction xs) auto

lemma map_err_Inr_D:
  "map_err f xs = Inr ys \<Longrightarrow> length ys = length xs \<and> (\<forall>i<length xs. f (xs ! i) = Inr (ys ! i))"
proof (induction xs arbitrary: ys)
  case Nil then show ?case by simp
next
  case (Cons x xs)
  then show ?case
    by (auto split: sum.splits simp: nth_Cons split: nat.splits)
qed

lemma consumer_okD:
  assumes "consumer_ok tsize bname s"
  shows "\<exists>w. dict_get (window s) bname = Inr w
          \<and> SerializeIterative w tsize = Inr (offsets_of tsize bname s)
          \<and> offsets_of tsize bname s \<noteq> []
          \<and> dict_get (delay s) bname = Inr (delay_of bname s)"
  using assms
  by (auto simp: consumer_ok_def offsets_of_def delay_of_def bind_err_def dict_get_def
           split: sum.splits option.splits)

lemma consumer_ok_ne: "consumer_ok tsize bname s \<Longrightarrow> offsets_of tsize bname s \<noteq> []"
  by (drule consumer_okD) blast

lemma lane_taps_ok:
  assumes "consumer_ok tsize bname s" "1 \<le> U"
  shows "lane_taps tsize bname U s =
     Inr (\<Union>u \<in> {0..<U}. (\<lambda>x. Max (set (offsets_of tsize bname s)) + u - x + delay_of bname s)
                             ` set (offsets_of tsize bname s))"
proof -
  from consumer_okD[OF assms(1)] obtain w where
    "dict_get (window s) bname = Inr w" 
    "SerializeIterative w tsize = Inr (offsets_of tsize bname s)"
    "offsets_of tsize bname s \<noteq> []"
    "dict_get (delay s) bname = Inr (delay_of bname s)" by blast
  then show ?thesis using assms(2) by (simp add: lane_taps_def bind_err_def)
qed

lemma A_dag_ok:
  assumes "child_stages stgs b = Inr ss" "ss \<noteq> []" "1 \<le> U"
      and "\<forall>s \<in> set ss. consumer_ok tsize (tensor_name b) s"
  shows "A_dag stgs tsize b U = Inr (unrolled_taps tsize (tensor_name b) U ss)"
proof -
  let ?g = "\<lambda>s. \<Union>u \<in> {0..<U}. (\<lambda>x. Max (set (offsets_of tsize (tensor_name b) s)) + u - x
                   + delay_of (tensor_name b) s) ` set (offsets_of tsize (tensor_name b) s)"
  have "map_err (lane_taps tsize (tensor_name b) U) ss = Inr (map ?g ss)"
    using assms by (intro map_err_Inr lane_taps_ok) auto
  then show ?thesis using assms(1,2)
    by (simp add: A_dag_def bind_err_def unrolled_taps_def)
qed

lemma finite_unrolled_taps: "finite (unrolled_taps tsize bname U ss)"
  by (simp add: unrolled_taps_def)

lemma class_inhabited:
  assumes "ss \<noteq> []" "1 \<le> U" "\<forall>s \<in> set ss. consumer_ok tsize bname s" "0 \<le> r" "r < U"
  shows "\<exists>x \<in> unrolled_taps tsize bname U ss. x mod U = r"
proof -
  from assms(1) obtain s where s: "s \<in> set ss" by (cases ss) auto
  let ?o = "offsets_of tsize bname s" and ?d = "delay_of bname s"
  have ne: "?o \<noteq> []" using consumer_ok_ne assms(3) s by simp
  then have mx: "Max (set ?o) \<in> set ?o" by (intro Max_in) auto
  let ?u = "(r - ?d) mod U"
  have u: "?u \<in> {0..<U}" using assms(2) by simp
  have "Max (set ?o) + ?u - Max (set ?o) + ?d \<in> unrolled_taps tsize bname U ss"
    unfolding unrolled_taps_def using s u mx by blast
  moreover have "(Max (set ?o) + ?u - Max (set ?o) + ?d) mod U = r"
  proof -
    have "(?u + ?d) mod U = (r - ?d + ?d) mod U" by (simp add: mod_add_left_eq)
    then show ?thesis using assms(4,5) by simp
  qed
  ultimately show ?thesis by blast
qed

lemma lanes_in_taps:
  assumes "s \<in> set ss" "consumer_ok tsize bname s" "0 \<le> i" "i < U"
  shows "delay_of bname s + i \<in> unrolled_taps tsize bname U ss"
proof -
  let ?o = "offsets_of tsize bname s" and ?d = "delay_of bname s"
  have ne: "?o \<noteq> []" using consumer_ok_ne assms(2) by simp
  then have mx: "Max (set ?o) \<in> set ?o" by (intro Max_in) auto
  have i: "i \<in> {0..<U}" using assms by simp
  have "Max (set ?o) + i - Max (set ?o) + ?d \<in> unrolled_taps tsize bname U ss"
    unfolding unrolled_taps_def using assms(1) i mx by blast
  then show ?thesis by (simp add: add.commute)
qed

lemma zip_tl_conv_map:
  "zip xs (tl xs) = map (\<lambda>i. (xs ! i, xs ! Suc i)) [0..<length xs - 1]"
  by (rule nth_equalityI) (auto simp: nth_tl)

lemma chain_links_nonempty:
  assumes "c \<noteq> []"
  shows "chain_links c = Inr ((hd c, hd c) # map (\<lambda>i. (c ! i, c ! Suc i)) [0..<length c - 1], c)"
proof -
  from assms obtain x xs where c: "c = x # xs" by (cases c) auto
  have "zip c (tl c) = map (\<lambda>i. (c ! i, c ! Suc i)) [0..<length c - 1]"
    by (rule zip_tl_conv_map)
  then show ?thesis using c by simp
qed

lemma hd_sorted_list_of_set:
  assumes "finite C" "C \<noteq> {}"
  shows "sorted_list_of_set C \<noteq> [] \<and> hd (sorted_list_of_set C) = Min C"
  using assms by (simp add: sorted_list_of_set_nonempty)

lemma finite_class: "finite A \<Longrightarrow> finite {x \<in> A. x mod U = (r::int)}"
  by simp

lemma chain_links_class:
  assumes "finite A" "{x \<in> A. x mod U = r} \<noteq> {}"
  shows "chain_links (sorted_list_of_set {x \<in> A. x mod U = r})
           = Inr (class_links A U r, sorted_list_of_set {x \<in> A. x mod U = r})"
proof -
  let ?C = "{x \<in> A. x mod U = r}"
  have "sorted_list_of_set ?C \<noteq> []" "hd (sorted_list_of_set ?C) = Min ?C"
    using hd_sorted_list_of_set[of ?C] assms by auto
  then show ?thesis
    by (simp add: chain_links_nonempty class_links_def Let_def)
qed

lemma set_upto_residues: "set (rev [0..U - 1]) = {0..<U::int}"
  by auto

lemma classes_cover:
  assumes "1 \<le> U" "finite A"
  shows "set (concat (map (\<lambda>r. sorted_list_of_set {x \<in> A. x mod U = r}) (rev [0..U - 1]))) = A"
proof -
  have "\<And>x. x \<in> A \<Longrightarrow> \<exists>r \<in> {0..<U}. x mod U = r" using assms(1) by simp
  then show ?thesis using assms(2) by (auto simp: set_upto_residues simp del: set_rev set_upto)
qed

lemma map_err_map: "map_err f (map g xs) = map_err (\<lambda>x. f (g x)) xs"
  by (induction xs) (auto split: sum.splits)

lemma buffer_of_chains:
  assumes "1 \<le> U" "finite A" "\<forall>r \<in> {0..<U}. {x \<in> A. x mod U = r} \<noteq> {}"
  shows "bind_err (map_err chain_links (chains_of A U)) buffer_of_links = Inr (spec_buffer A U)"
proof -
  let ?rs = "rev [0..U - 1]"
  let ?ch = "\<lambda>r. sorted_list_of_set {x \<in> A. x mod U = r}"
  have chains: "chains_of A U = map ?ch ?rs" by (simp add: chains_of_def)
  have links: "map_err chain_links (map ?ch ?rs) = Inr (map (\<lambda>r. (class_links A U r, ?ch r)) ?rs)"
    unfolding map_err_map
  proof (rule map_err_Inr)
    fix r assume "r \<in> set ?rs"
    then have "r \<in> {0..<U}" by auto
    then have "{x \<in> A. x mod U = r} \<noteq> {}" using assms(3) by blast
    then show "chain_links (?ch r) = Inr (class_links A U r, ?ch r)"
      using assms(2) by (rule chain_links_class[rotated])
  qed
  have offs: "concat (map snd (map (\<lambda>r. (class_links A U r, ?ch r)) ?rs)) = concat (map ?ch ?rs)"
    by (simp add: comp_def)
  have cover: "set (concat (map ?ch ?rs)) = A" using assms(1,2) by (rule classes_cover)
  have "A \<noteq> {}" using assms(1,3) by (auto dest: bspec[where x=0])
  then have ne: "concat (map ?ch ?rs) \<noteq> []" using cover by auto
  have lk: "concat (map fst (map (\<lambda>r. (class_links A U r, ?ch r)) ?rs))
              = concat (map (class_links A U) ?rs)"
    by (simp add: comp_def)
  show ?thesis
    unfolding chains links bind_err_def
    by (simp only: sum.case buffer_of_links_def Let_def offs lk ne cover spec_buffer_def if_False)
qed

lemma GetBuffer_ok:
  assumes "child_stages stgs b = Inr ss" "ss \<noteq> []" "1 \<le> U"
      and "\<forall>s \<in> set ss. consumer_ok tsize (tensor_name b) s"
  shows "GetBuffer stgs tsize b U = Inr (spec_buffer (unrolled_taps tsize (tensor_name b) U ss) U)"
proof -
  let ?A = "unrolled_taps tsize (tensor_name b) U ss"
  have A: "A_dag stgs tsize b U = Inr ?A" using assms by (rule A_dag_ok)
  have inh: "\<forall>r \<in> {0..<U}. {x \<in> ?A. x mod U = r} \<noteq> {}"
  proof
    fix r assume "r \<in> {0..<U}"
    then have "\<exists>x \<in> ?A. x mod U = r"
      using class_inhabited[OF assms(2,3,4), of r] by simp
    then show "{x \<in> ?A. x mod U = r} \<noteq> {}" by blast
  qed
  have "bind_err (map_err chain_links (chains_of ?A U)) buffer_of_links = Inr (spec_buffer ?A U)"
    using assms(3) finite_unrolled_taps inh by (rule buffer_of_chains)
  then show ?thesis by (simp add: GetBuffer_def GetChains_def A bind_err_def)
qed

section \<open>Properties of the recorded buffer lengths\<close>

lemma map_of_dict_set: "map_of (dict_set d k v) = (map_of d)(k \<mapsto> v)"
  by (simp add: dict_set_def update_conv')


lemma fold_plain_other:
  "k \<notin> snd ` set ls \<Longrightarrow>
     map_of (fold (\<lambda>(s, e) d. dict_set d e (g s e)) ls d0) k = map_of d0 k"
  by (induction ls arbitrary: d0) (auto simp: map_of_dict_set)

lemma fold_plain_member:
  assumes "distinct (map snd ls)" "(s, e) \<in> set ls"
  shows "map_of (fold (\<lambda>(s, e) d. dict_set d e (g s e)) ls d0) e = Some (g s e)"
  using assms
proof (induction ls arbitrary: d0)
  case Nil then show ?case by simp
next
  case (Cons x ls)
  obtain s' e' where x: "x = (s', e')" by (cases x)
  show ?case
  proof (cases "(s, e) = x")
    case True
    then have "e \<notin> snd ` set ls" using Cons.prems(1) by (auto simp: x)
    moreover have "s' = s" "e' = e" using True x by auto
    ultimately show ?thesis
      by (simp add: x fold_plain_other map_of_dict_set)
  next
    case False
    then have "(s, e) \<in> set ls" using Cons.prems(2) by simp
    moreover have "distinct (map snd ls)" using Cons.prems(1) by simp
    ultimately show ?thesis using Cons.IH by simp
  qed
qed

lemma loop_plain:
  assumes "U \<noteq> 0"
      and "\<forall>(s, e) \<in> set ls. 0 \<le> s mod U \<and> nat (s mod U) < length first \<and> \<not> first ! nat (s mod U)"
  shows "reuse_lengths_loop U ls first lens =
           Inr (first, fold (\<lambda>(s, e) d. dict_set d e ((e - s) div U)) ls lens)"
  using assms by (induction ls arbitrary: lens) auto

lemma loop_append:
  "reuse_lengths_loop U (xs @ ys) first lens =
     bind_err (reuse_lengths_loop U xs first lens) (\<lambda>(f, l). reuse_lengths_loop U ys f l)"
  by (induction U xs first lens rule: reuse_lengths_loop.induct) (auto simp: bind_err_def)


lemma class_links_zip:
  assumes "finite A" "{x \<in> A. x mod U = r} \<noteq> {}"
  shows "class_links A U r =
           (hd (sorted_list_of_set {x \<in> A. x mod U = r}), hd (sorted_list_of_set {x \<in> A. x mod U = r}))
           # zip (sorted_list_of_set {x \<in> A. x mod U = r}) (tl (sorted_list_of_set {x \<in> A. x mod U = r}))"
  using hd_sorted_list_of_set[of "{x \<in> A. x mod U = r}"] assms
  by (simp add: class_links_def Let_def zip_tl_conv_map)

lemma zip_tl_neq:
  assumes "distinct c" "(s, e) \<in> set (zip c (tl c))"
  shows "s \<noteq> e"
proof -
  from assms(2) obtain i where i: "i < length c - 1" "s = c ! i" "e = c ! Suc i"
    by (auto simp: zip_tl_conv_map)
  then show ?thesis using assms(1) by (auto simp: nth_eq_iff_index_eq)
qed

lemma chain_loop:
  assumes "1 \<le> U" "0 \<le> r" "r < U" "length first = nat U" "first ! nat r"
      and "c \<noteq> []" "\<forall>x \<in> set c. x mod U = r"
  shows "reuse_lengths_loop U ((hd c, hd c) # zip c (tl c)) first lens =
           Inr (first[nat r := False],
                fold (\<lambda>(s, e) d. dict_set d e ((e - s) div U)) (zip c (tl c))
                     (dict_set lens (hd c) (link_length U (hd c) (hd c))))"
proof -
  have h: "hd c mod U = r" using assms(6,7) by (cases c) auto
  have rn: "nat r < length first" using assms by simp
  have rest: "\<forall>(s, e) \<in> set (zip c (tl c)). 0 \<le> s mod U \<and> nat (s mod U) < length (first[nat r := False])
                \<and> \<not> (first[nat r := False]) ! nat (s mod U)"
  proof (clarify, intro conjI)
    fix s e assume "(s, e) \<in> set (zip c (tl c))"
    then have "s \<in> set c" by (rule set_zip_leftD)
    then have sr: "s mod U = r" using assms(7) by blast
    show "0 \<le> s mod U" using sr assms by simp
    show "nat (s mod U) < length (first[nat r := False])" using sr rn by simp
    show "\<not> (first[nat r := False]) ! nat (s mod U)" using sr rn by simp
  qed
  have U0: "U \<noteq> 0" using assms(1) by simp
  show ?thesis
    using assms(1,2,3,5) rn h loop_plain[OF U0 rest]
    by (simp add: link_length_def)
qed

lemma chain_result_lookup:
  fixes U :: int and lens :: "(int, int) dict"
  assumes "distinct c" "c \<noteq> []"
  defines "d1 \<equiv> fold (\<lambda>(s, e) d. dict_set d e ((e - s) div U)) (zip c (tl c))
                     (dict_set lens (hd c) (link_length U (hd c) (hd c)))"
  shows "\<forall>(s, e) \<in> set ((hd c, hd c) # zip c (tl c)). map_of d1 e = Some (link_length U s e)"
    and "\<forall>k. k \<notin> set c \<longrightarrow> map_of d1 k = map_of lens k"
proof -
  have snd_zip: "map snd (zip c (tl c)) = tl c" by (simp add: map_snd_zip_take)
  have dz: "distinct (map snd (zip c (tl c)))" using assms(1) by (simp add: snd_zip distinct_tl)
  have hd_notin: "hd c \<notin> snd ` set (zip c (tl c))"
  proof -
    have "snd ` set (zip c (tl c)) = set (tl c)" using snd_zip by (metis set_map)
    then show ?thesis using assms(1,2) by (cases c) auto
  qed
  show "\<forall>(s, e) \<in> set ((hd c, hd c) # zip c (tl c)). map_of d1 e = Some (link_length U s e)"
  proof (clarify)
    fix s e assume se: "(s, e) \<in> set ((hd c, hd c) # zip c (tl c))"
    show "map_of d1 e = Some (link_length U s e)"
    proof (cases "(s, e) \<in> set (zip c (tl c))")
      case True
      then have "s \<noteq> e" using assms(1) by (rule zip_tl_neq[rotated])
      then have "link_length U s e = (e - s) div U" by (simp add: link_length_def)
      then show ?thesis unfolding d1_def using fold_plain_member[OF dz True, of "\<lambda>s e. (e - s) div U"]
        by simp
    next
      case False
      then have "s = hd c" "e = hd c" using se by auto
      then show ?thesis unfolding d1_def using hd_notin
        by (simp add: fold_plain_other map_of_dict_set)
    qed
  qed
  show "\<forall>k. k \<notin> set c \<longrightarrow> map_of d1 k = map_of lens k"
  proof (intro allI impI)
    fix k assume k: "k \<notin> set c"
    have "snd ` set (zip c (tl c)) = set (tl c)" using snd_zip by (metis set_map)
    then have "k \<notin> snd ` set (zip c (tl c))" using k by (cases c) auto
    moreover have "k \<noteq> hd c" using k assms(2) by (cases c) auto
    ultimately show "map_of d1 k = map_of lens k"
      unfolding d1_def by (simp add: fold_plain_other map_of_dict_set)
  qed
qed


lemma loop_classes:
  assumes "1 \<le> U" "finite A" "distinct rs" "set rs \<subseteq> {0..<U}"
      and "\<forall>r \<in> set rs. {x \<in> A. x mod U = r} \<noteq> {}"
      and "length first = nat U" "\<forall>r \<in> set rs. first ! nat r"
  shows "\<exists>first' lens'.
           reuse_lengths_loop U (concat (map (class_links A U) rs)) first lens = Inr (first', lens')
         \<and> (\<forall>r \<in> set rs. \<forall>(s, e) \<in> set (class_links A U r). map_of lens' e = Some (link_length U s e))
         \<and> (\<forall>k. k mod U \<notin> set rs \<longrightarrow> map_of lens' k = map_of lens k)"
  using assms(3-7)
proof (induction rs arbitrary: first lens)
  case Nil
  then show ?case by simp
next
  case (Cons r rs)
  let ?C = "{x \<in> A. x mod U = r}"
  let ?c = "sorted_list_of_set ?C"
  have r: "0 \<le> r" "r < U" using Cons.prems(2) by auto
  have Cne: "?C \<noteq> {}" using Cons.prems(3) by simp
  have fin: "finite ?C" using assms(2) by simp
  have cne: "?c \<noteq> []" using fin Cne by simp
  have cset: "set ?c = ?C" using fin by simp
  have cdist: "distinct ?c" by simp
  have cl: "class_links A U r = (hd ?c, hd ?c) # zip ?c (tl ?c)"
    using assms(2) Cne by (rule class_links_zip)
  let ?first1 = "first[nat r := False]"
  let ?d1 = "fold (\<lambda>(s, e) d. dict_set d e ((e - s) div U)) (zip ?c (tl ?c))
                     (dict_set lens (hd ?c) (link_length U (hd ?c) (hd ?c)))"
  have step: "reuse_lengths_loop U (class_links A U r) first lens = Inr (?first1, ?d1)"
    unfolding cl using assms(1) r Cons.prems(4) _ cne
  proof (rule chain_loop)
    show "first ! nat r" using Cons.prems(5) by simp
    show "\<forall>x \<in> set ?c. x mod U = r" using cset by simp
  qed
  have look1: "\<forall>(s, e) \<in> set (class_links A U r). map_of ?d1 e = Some (link_length U s e)"
    unfolding cl using cdist cne by (rule chain_result_lookup(1))
  have other1: "\<forall>k. k \<notin> set ?c \<longrightarrow> map_of ?d1 k = map_of lens k"
    using cdist cne by (rule chain_result_lookup(2))
  have ends_r: "\<forall>(s, e) \<in> set (class_links A U r). e mod U = r"
  proof (clarify)
    fix s e assume "(s, e) \<in> set (class_links A U r)"
    then have "e \<in> set ?c" unfolding cl using cne
      by (auto dest!: set_zip_rightD list.set_sel(2)[rotated] simp: hd_in_set)
    then show "e mod U = r" using cset by simp
  qed
  have IH: "\<exists>first' lens'.
           reuse_lengths_loop U (concat (map (class_links A U) rs)) ?first1 ?d1 = Inr (first', lens')
         \<and> (\<forall>r \<in> set rs. \<forall>(s, e) \<in> set (class_links A U r). map_of lens' e = Some (link_length U s e))
         \<and> (\<forall>k. k mod U \<notin> set rs \<longrightarrow> map_of lens' k = map_of ?d1 k)"
  proof (rule Cons.IH)
    show "distinct rs" using Cons.prems(1) by simp
    show "set rs \<subseteq> {0..<U}" using Cons.prems(2) by simp
    show "\<forall>r \<in> set rs. {x \<in> A. x mod U = r} \<noteq> {}" using Cons.prems(3) by simp
    show "length ?first1 = nat U" using Cons.prems(4) by simp
    show "\<forall>r' \<in> set rs. ?first1 ! nat r'"
    proof
      fix r' assume r': "r' \<in> set rs"
      then have "r' \<noteq> r" "0 \<le> r'" using Cons.prems(1,2) by auto
      then have "nat r' \<noteq> nat r" using r(1) by simp
      then show "?first1 ! nat r'" using Cons.prems(5) r' by simp
    qed
  qed
  then obtain first' lens' where
    run: "reuse_lengths_loop U (concat (map (class_links A U) rs)) ?first1 ?d1 = Inr (first', lens')"
    and good: "\<forall>r \<in> set rs. \<forall>(s, e) \<in> set (class_links A U r). map_of lens' e = Some (link_length U s e)"
    and other: "\<forall>k. k mod U \<notin> set rs \<longrightarrow> map_of lens' k = map_of ?d1 k"
    by blast
  have whole: "reuse_lengths_loop U (concat (map (class_links A U) (r # rs))) first lens = Inr (first', lens')"
    by (simp add: loop_append step run bind_err_def)
  have rnotin: "r \<notin> set rs" using Cons.prems(1) by simp
  have good_r: "\<forall>(s, e) \<in> set (class_links A U r). map_of lens' e = Some (link_length U s e)"
  proof (clarify)
    fix s e assume se: "(s, e) \<in> set (class_links A U r)"
    then have "e mod U = r" using ends_r by blast
    then have "map_of lens' e = map_of ?d1 e" using other rnotin by simp
    then show "map_of lens' e = Some (link_length U s e)" using look1 se by auto
  qed
  have other': "\<forall>k. k mod U \<notin> set (r # rs) \<longrightarrow> map_of lens' k = map_of lens k"
  proof (intro allI impI)
    fix k assume k: "k mod U \<notin> set (r # rs)"
    then have "k \<notin> set ?c" using cset by auto
    then have "map_of ?d1 k = map_of lens k" using other1 by blast
    moreover have "map_of lens' k = map_of ?d1 k" using other k by simp
    ultimately show "map_of lens' k = map_of lens k" by simp
  qed
  show ?case using whole good good_r other' by auto
qed

lemma lengths_of_spec_buffer:
  assumes "1 \<le> U" "finite A" "\<forall>r \<in> {0..<U}. {x \<in> A. x mod U = r} \<noteq> {}"
  shows "\<exists>l. reuse_buffer_length_of U (spec_buffer A U) = Inr l
           \<and> (\<forall>(s, e) \<in> set (snd (spec_buffer A U)). map_of l e = Some (link_length U s e))"
proof -
  let ?rs = "rev [0..U - 1]"
  have "\<exists>first' lens'.
           reuse_lengths_loop U (concat (map (class_links A U) ?rs)) (replicate (nat U) True) [] = Inr (first', lens')
         \<and> (\<forall>r \<in> set ?rs. \<forall>(s, e) \<in> set (class_links A U r). map_of lens' e = Some (link_length U s e))
         \<and> (\<forall>k. k mod U \<notin> set ?rs \<longrightarrow> map_of lens' k = map_of [] k)"
    using assms(1,2)
  proof (rule loop_classes)
    show "distinct ?rs" by simp
    show "set ?rs \<subseteq> {0..<U}" by auto
    show "\<forall>r \<in> set ?rs. {x \<in> A. x mod U = r} \<noteq> {}" using assms(3) by auto
    show "length (replicate (nat U) True) = nat U" by simp
    show "\<forall>r \<in> set ?rs. replicate (nat U) True ! nat r" by auto
  qed
  then obtain first' lens' where
    run: "reuse_lengths_loop U (concat (map (class_links A U) ?rs)) (replicate (nat U) True) [] = Inr (first', lens')"
    and good: "\<forall>r \<in> set ?rs. \<forall>(s, e) \<in> set (class_links A U r). map_of lens' e = Some (link_length U s e)"
    by blast
  have "reuse_buffer_length_of U (spec_buffer A U) = Inr lens'"
    using run by (simp add: reuse_buffer_length_of_def spec_buffer_def bind_err_def)
  moreover have "\<forall>(s, e) \<in> set (snd (spec_buffer A U)). map_of lens' e = Some (link_length U s e)"
    using good by (auto simp: spec_buffer_def)
  ultimately show ?thesis by blast
qed

section \<open>Properties of the reuse buffers\<close>

lemma lane_taps_success:
  assumes "lane_taps tsize bname U s = Inr X"
  shows "1 \<le> U \<and> finite X
       \<and> X = (\<Union>u \<in> {0..<U}. (\<lambda>x. Max (set (offsets_of tsize bname s)) + u - x + delay_of bname s)
                             ` set (offsets_of tsize bname s))"
  using assms
  by (auto simp: lane_taps_def bind_err_def offsets_of_def delay_of_def dict_get_def
           split: sum.splits option.splits if_splits)

lemma map_err_all_Inr:
  "map_err f xs = Inr ys \<Longrightarrow> list_all2 (\<lambda>x y. f x = Inr y) xs ys"
  by (induction xs arbitrary: ys) (auto split: sum.splits)

lemma A_dag_success:
  assumes "A_dag stgs tsize b U = Inr A"
  shows "\<exists>ss. child_stages stgs b = Inr ss \<and> ss \<noteq> [] \<and> 1 \<le> U \<and> finite A
            \<and> A = unrolled_taps tsize (tensor_name b) U ss"
proof -
  from assms obtain ss sets where ss: "child_stages stgs b = Inr ss"
    and sets: "map_err (lane_taps tsize (tensor_name b) U) ss = Inr sets"
    and ne: "sets \<noteq> []" and A: "A = \<Union> (set sets)"
    by (auto simp: A_dag_def bind_err_def split: sum.splits if_splits)
  have all: "list_all2 (\<lambda>s X. lane_taps tsize (tensor_name b) U s = Inr X) ss sets"
    using sets by (rule map_err_all_Inr)
  then have len: "length ss = length sets" by (rule list_all2_lengthD)
  then have ssne: "ss \<noteq> []" using ne by auto
  let ?g = "\<lambda>s. \<Union>u \<in> {0..<U}. (\<lambda>x. Max (set (offsets_of tsize (tensor_name b) s)) + u - x
                   + delay_of (tensor_name b) s) ` set (offsets_of tsize (tensor_name b) s)"
  have each: "\<forall>i < length ss. 1 \<le> U \<and> finite (sets ! i) \<and> sets ! i = ?g (ss ! i)"
    using all lane_taps_success by (auto simp: list_all2_conv_all_nth)
  have U: "1 \<le> U" using each ssne by (cases ss) auto
  have "sets = map ?g ss"
    using each len by (intro nth_equalityI) auto
  then have "A = unrolled_taps tsize (tensor_name b) U ss"
    using A by (simp add: unrolled_taps_def)
  then show ?thesis using ss ssne U finite_unrolled_taps by blast
qed

lemma map_err_chain_links_success:
  assumes "map_err chain_links cs = Inr parts"
  shows "\<forall>c \<in> set cs. c \<noteq> []"
  using assms
  by (induction cs arbitrary: parts) (auto split: sum.splits)

lemma GetBuffer_success:
  assumes "GetBuffer stgs tsize b U = Inr buf"
  shows "\<exists>ss. child_stages stgs b = Inr ss \<and> ss \<noteq> [] \<and> 1 \<le> U
          \<and> (\<forall>r \<in> {0..<U}. {x \<in> unrolled_taps tsize (tensor_name b) U ss. x mod U = r} \<noteq> {})
          \<and> buf = spec_buffer (unrolled_taps tsize (tensor_name b) U ss) U"
proof -
  from assms obtain A parts where A: "A_dag stgs tsize b U = Inr A"
    and parts: "map_err chain_links (chains_of A U) = Inr parts"
    and buf: "bind_err (map_err chain_links (chains_of A U)) buffer_of_links = Inr buf"
    by (auto simp: GetBuffer_def GetChains_def bind_err_def split: sum.splits)
  from A_dag_success[OF A] obtain ss where ss: "child_stages stgs b = Inr ss" "ss \<noteq> []" "1 \<le> U"
    "finite A" "A = unrolled_taps tsize (tensor_name b) U ss" by blast
  have chains: "\<forall>c \<in> set (chains_of A U). c \<noteq> []"
    using parts by (rule map_err_chain_links_success)
  have inh: "\<forall>r \<in> {0..<U}. {x \<in> A. x mod U = r} \<noteq> {}"
  proof
    fix r assume r: "r \<in> {0..<U}"
    then have "sorted_list_of_set {x \<in> A. x mod U = r} \<in> set (chains_of A U)"
      by (auto simp: chains_of_def)
    then have "sorted_list_of_set {x \<in> A. x mod U = r} \<noteq> []" using chains by blast
    then show "{x \<in> A. x mod U = r} \<noteq> {}"
      by (metis sorted_list_of_set.sorted_key_list_of_set_empty)
  qed
  have "bind_err (map_err chain_links (chains_of A U)) buffer_of_links = Inr (spec_buffer A U)"
    using ss(3,4) inh by (rule buffer_of_chains)
  then have "buf = spec_buffer A U" using buf by simp
  then show ?thesis using ss inh by blast
qed

lemma reuse_buffers_loop_other:
  assumes "reuse_buffers_loop self bs acc = Inr (bufs, lens)" "k \<notin> tensor_name ` set bs"
  shows "map_of bufs k = map_of (fst acc) k \<and> map_of lens k = map_of (snd acc) k"
  using assms
proof (induction bs arbitrary: acc)
  case Nil then show ?case by simp
next
  case (Cons b bs)
  from Cons.prems(1) obtain buf l where
    rest: "reuse_buffers_loop self bs
       (dict_set (fst acc) (tensor_name b) buf, dict_set (snd acc) (tensor_name b) l) = Inr (bufs, lens)"
    by (auto simp: bind_err_def split: sum.splits)
  have "k \<notin> tensor_name ` set bs" "k \<noteq> tensor_name b" using Cons.prems(2) by auto
  then show ?case using Cons.IH[OF rest] by (simp add: map_of_dict_set)
qed

lemma reuse_buffers_loop_lookup:
  assumes "reuse_buffers_loop self bs acc = Inr (bufs, lens)" "distinct (map tensor_name bs)"
      and "b \<in> set bs"
  shows "\<exists>buf l. GetBuffer (stages self) (tile_size self) b (unroll_factor self) = Inr buf
           \<and> reuse_buffer_length_of (unroll_factor self) buf = Inr l
           \<and> map_of bufs (tensor_name b) = Some buf \<and> map_of lens (tensor_name b) = Some l"
  using assms
proof (induction bs arbitrary: acc)
  case Nil then show ?case by simp
next
  case (Cons a bs)
  from Cons.prems(1) obtain buf l where
    buf: "GetBuffer (stages self) (tile_size self) a (unroll_factor self) = Inr buf"
    and l: "reuse_buffer_length_of (unroll_factor self) buf = Inr l"
    and rest: "reuse_buffers_loop self bs
       (dict_set (fst acc) (tensor_name a) buf, dict_set (snd acc) (tensor_name a) l) = Inr (bufs, lens)"
    by (auto simp: bind_err_def split: sum.splits)
  show ?case
  proof (cases "b = a")
    case True
    have "tensor_name a \<notin> tensor_name ` set bs" using Cons.prems(2) by simp
    from reuse_buffers_loop_other[OF rest this]
    have "map_of bufs (tensor_name a) = Some buf" "map_of lens (tensor_name a) = Some l"
      by (simp_all add: map_of_dict_set)
    then show ?thesis using True buf l by blast
  next
    case False
    then have "b \<in> set bs" using Cons.prems(3) by simp
    moreover have "distinct (map tensor_name bs)" using Cons.prems(2) by simp
    ultimately show ?thesis using Cons.IH[OF rest] by blast
  qed
qed

lemma reuse_buffers_loop_total:
  assumes "\<forall>b \<in> set bs. \<exists>buf l. GetBuffer (stages self) (tile_size self) b (unroll_factor self) = Inr buf
           \<and> reuse_buffer_length_of (unroll_factor self) buf = Inr l"
  shows "\<exists>r. reuse_buffers_loop self bs acc = Inr r"
  using assms
proof (induction bs arbitrary: acc)
  case Nil then show ?case by simp
next
  case (Cons a bs)
  then obtain buf l where "GetBuffer (stages self) (tile_size self) a (unroll_factor self) = Inr buf"
    "reuse_buffer_length_of (unroll_factor self) buf = Inr l" by auto
  then show ?case using Cons by (simp add: bind_err_def)
qed

section \<open>The reuse buffer of a producer tensor\<close>

text \<open>
  Claim C4. When every producer tensor of the stencil is read through non-empty windows with
  stored delays and the unroll factor \<open>U\<close> is at least 1, \<open>GetReuseBuffers\<close> returns, and the
  buffer it holds for a producer \<open>b\<close> is \<open>max(A\<^sup>\<dagger>) + 1\<close> followed by the links of the residue
  classes of \<open>A\<^sup>\<dagger>\<close> modulo \<open>U\<close>, in descending order of the residue: for each class a
  self-link at its smallest element, then the adjacent pairs of the class in ascending order.
\<close>

theorem GetReuseBuffers_structure:
  assumes "1 \<le> unroll_factor self"
      and "distinct (map tensor_name (GetProducerTensors self))"
      and "\<forall>p \<in> set (GetProducerTensors self).
             \<exists>cs. child_stages (stages self) p = Inr cs
                \<and> (\<forall>s \<in> set cs. consumer_ok (tile_size self) (tensor_name p) s)"
      and "b \<in> set (GetProducerTensors self)"
      and "child_stages (stages self) b = Inr ss"
  shows "\<exists>bufs lens. GetReuseBuffers self = Inr (bufs, lens)
           \<and> map_of bufs (tensor_name b) =
               Some (Max (unrolled_taps (tile_size self) (tensor_name b) (unroll_factor self) ss) + 1,
                     concat (map (class_links
                                    (unrolled_taps (tile_size self) (tensor_name b) (unroll_factor self) ss)
                                    (unroll_factor self))
                                 (rev [0..unroll_factor self - 1])))"
proof -
  let ?U = "unroll_factor self"
  have each: "\<forall>p \<in> set (GetProducerTensors self).
     \<exists>buf l. GetBuffer (stages self) (tile_size self) p ?U = Inr buf
           \<and> reuse_buffer_length_of ?U buf = Inr l"
  proof
    fix p assume p: "p \<in> set (GetProducerTensors self)"
    then obtain cs where cs: "child_stages (stages self) p = Inr cs"
      "\<forall>s \<in> set cs. consumer_ok (tile_size self) (tensor_name p) s"
      using assms(3) by blast
    have "children p \<noteq> []" using p by (auto simp: GetProducerTensors_def)
    then have csne: "cs \<noteq> []"
      using cs(1) map_err_Inr_D[of "dict_get (stages self)" "children p" cs]
      by (auto simp: child_stages_def)
    let ?A = "unrolled_taps (tile_size self) (tensor_name p) ?U cs"
    have buf: "GetBuffer (stages self) (tile_size self) p ?U = Inr (spec_buffer ?A ?U)"
      using cs(1) csne assms(1) cs(2) by (rule GetBuffer_ok)
    have inh: "\<forall>r \<in> {0..<?U}. {x \<in> ?A. x mod ?U = r} \<noteq> {}"
    proof
      fix r assume "r \<in> {0..<?U}"
      then have "\<exists>x \<in> ?A. x mod ?U = r"
        using class_inhabited[OF csne assms(1) cs(2), of r] by simp
      then show "{x \<in> ?A. x mod ?U = r} \<noteq> {}" by blast
    qed
    have "\<exists>l. reuse_buffer_length_of ?U (spec_buffer ?A ?U) = Inr l
           \<and> (\<forall>(s, e) \<in> set (snd (spec_buffer ?A ?U)). map_of l e = Some (link_length ?U s e))"
      using assms(1) finite_unrolled_taps inh by (rule lengths_of_spec_buffer)
    then show "\<exists>buf l. GetBuffer (stages self) (tile_size self) p ?U = Inr buf
           \<and> reuse_buffer_length_of ?U buf = Inr l"
      using buf by blast
  qed
  then obtain r where "reuse_buffers_loop self (GetProducerTensors self) ([], []) = Inr r"
    using reuse_buffers_loop_total by blast
  then obtain bufs lens where run: "reuse_buffers_loop self (GetProducerTensors self) ([], []) = Inr (bufs, lens)"
    by (cases r) auto
  from reuse_buffers_loop_lookup[OF run assms(2,4)] obtain buf where
    buf: "GetBuffer (stages self) (tile_size self) b ?U = Inr buf"
    and look: "map_of bufs (tensor_name b) = Some buf" by blast
  from assms(3,4,5) have ok: "\<forall>s \<in> set ss. consumer_ok (tile_size self) (tensor_name b) s"
    by fastforce
  have "children b \<noteq> []" using assms(4) by (auto simp: GetProducerTensors_def)
  then have ssne: "ss \<noteq> []"
    using assms(5) map_err_Inr_D[of "dict_get (stages self)" "children b" ss]
    by (auto simp: child_stages_def)
  have "GetBuffer (stages self) (tile_size self) b ?U
          = Inr (spec_buffer (unrolled_taps (tile_size self) (tensor_name b) ?U ss) ?U)"
    using assms(5) ssne assms(1) ok by (rule GetBuffer_ok)
  then have "buf = spec_buffer (unrolled_taps (tile_size self) (tensor_name b) ?U ss) ?U"
    using buf by simp
  then show ?thesis using run look by (simp add: GetReuseBuffers_def spec_buffer_def)
qed

lemma two_consumers_producers:
  "GetProducerTensors (two_consumers 2) = [mk_tensor ''b'' [''s1'', ''s2'']]"
  by code_simp

lemma two_consumers_children:
  "child_stages (stages (two_consumers 2)) (mk_tensor ''b'' [''s1'', ''s2''])
     = Inr [mk_stage ''s1'' ''b'' [[-1, 0], [0, 0], [1, 0], [0, 1]] [-1, 0, 1, 4] 2,
            mk_stage ''s2'' ''b'' [[0, 0]] [0] 0]"
  by code_simp

lemma two_consumers_ok:
  "consumer_ok [4, 0] ''b'' (mk_stage ''s1'' ''b'' [[-1, 0], [0, 0], [1, 0], [0, 1]] [-1, 0, 1, 4] 2)"
  "consumer_ok [4, 0] ''b'' (mk_stage ''s2'' ''b'' [[0, 0]] [0] 0)"
  by code_simp+

lemma two_consumers_run:
  "GetReuseBuffers (two_consumers 2) =
     Inr ([(''b'', 9, [(1, 1), (1, 3), (3, 5), (5, 7), (0, 0), (0, 2), (2, 6), (6, 8)])],
          [(''b'', [(1, 0), (3, 1), (5, 1), (7, 1), (0, 0), (2, 1), (6, 2), (8, 1)])])"
  by code_simp

theorem GetReuseBuffers_structure_witness:
  "GetReuseBuffers (two_consumers 2) =
     Inr ([(''b'', 9, [(1, 1), (1, 3), (3, 5), (5, 7), (0, 0), (0, 2), (2, 6), (6, 8)])],
          [(''b'', [(1, 0), (3, 1), (5, 1), (7, 1), (0, 0), (2, 1), (6, 2), (8, 1)])])
   \<and> (Max (unrolled_taps [4, 0] ''b'' 2
              [mk_stage ''s1'' ''b'' [[-1, 0], [0, 0], [1, 0], [0, 1]] [-1, 0, 1, 4] 2,
               mk_stage ''s2'' ''b'' [[0, 0]] [0] 0]) + 1,
       concat (map (class_links
                 (unrolled_taps [4, 0] ''b'' 2
                    [mk_stage ''s1'' ''b'' [[-1, 0], [0, 0], [1, 0], [0, 1]] [-1, 0, 1, 4] 2,
                     mk_stage ''s2'' ''b'' [[0, 0]] [0] 0]) 2)
               (rev [0..2 - 1])))
     = (9, [(1, 1), (1, 3), (3, 5), (5, 7), (0, 0), (0, 2), (2, 6), (6, 8)])"
proof -
  let ?self = "two_consumers 2"
  let ?b = "mk_tensor ''b'' [''s1'', ''s2'']"
  have U: "unroll_factor ?self = 2" and T: "tile_size ?self = [4, 0]"
    by (simp_all add: two_consumers_def)
  have n: "tensor_name ?b = ''b''" by (simp add: mk_tensor_def)
  have h1: "1 \<le> unroll_factor ?self" by (simp add: U)
  have h2: "distinct (map tensor_name (GetProducerTensors ?self))"
    by (simp add: two_consumers_producers)
  have h3: "\<forall>p \<in> set (GetProducerTensors ?self).
             \<exists>cs. child_stages (stages ?self) p = Inr cs
                \<and> (\<forall>s \<in> set cs. consumer_ok (tile_size ?self) (tensor_name p) s)"
    using two_consumers_children two_consumers_ok
    by (simp add: two_consumers_producers T n)
  have h4: "?b \<in> set (GetProducerTensors ?self)" by (simp add: two_consumers_producers)
  from GetReuseBuffers_structure[OF h1 h2 h3 h4 two_consumers_children]
  show ?thesis by (simp add: two_consumers_run U T n)
qed

text \<open>
  Claim C5, as the code has it. For every producer tensor \<open>b\<close> and every link
  \<open>(start, end)\<close> of its reuse buffer, the length recorded in \<open>reuse_buffer_lengths[b.name]\<close>
  at key \<open>end\<close> is \<open>(end - start) // U\<close>, except for a self-link (the link that opens
  the chain of its lane) with \<open>start \<ge> U\<close>, for which it is \<open>end // U\<close>.
\<close>

theorem reuse_buffer_lengths_recorded:
  assumes "GetReuseBuffers self = Inr (bufs, lens)"
      and "distinct (map tensor_name (GetProducerTensors self))"
      and "b \<in> set (GetProducerTensors self)"
  shows "\<exists>n links l. map_of bufs (tensor_name b) = Some (n, links)
           \<and> map_of lens (tensor_name b) = Some l
           \<and> (\<forall>(start, endp) \<in> set links.
                 map_of l endp =
                   Some (if start = endp \<and> unroll_factor self \<le> start
                         then endp div unroll_factor self
                         else (endp - start) div unroll_factor self))"
proof -
  let ?U = "unroll_factor self"
  from assms(1) have run: "reuse_buffers_loop self (GetProducerTensors self) ([], []) = Inr (bufs, lens)"
    by (simp add: GetReuseBuffers_def)
  from reuse_buffers_loop_lookup[OF run assms(2,3)] obtain buf l where
    buf: "GetBuffer (stages self) (tile_size self) b ?U = Inr buf"
    and l: "reuse_buffer_length_of ?U buf = Inr l"
    and look: "map_of bufs (tensor_name b) = Some buf" "map_of lens (tensor_name b) = Some l"
    by blast
  from GetBuffer_success[OF buf] obtain ss where
    U: "1 \<le> ?U"
    and inh: "\<forall>r \<in> {0..<?U}. {x \<in> unrolled_taps (tile_size self) (tensor_name b) ?U ss. x mod ?U = r} \<noteq> {}"
    and shape: "buf = spec_buffer (unrolled_taps (tile_size self) (tensor_name b) ?U ss) ?U"
    by blast
  from lengths_of_spec_buffer[OF U finite_unrolled_taps inh] l shape
  have good: "\<forall>(s, e) \<in> set (snd buf). map_of l e = Some (link_length ?U s e)"
    by auto
  obtain n links where nl: "buf = (n, links)" by (cases buf)
  show ?thesis
    using look good unfolding nl link_length_def by auto
qed

lemma one_consumer_run:
  "GetReuseBuffers (one_consumer 1 3) = Inr ([(''b'', 4, [(3, 3)])], [(''b'', [(3, 3)])])"
  by code_simp

theorem reuse_buffer_lengths_recorded_witness:
  "GetReuseBuffers (two_consumers 2) =
     Inr ([(''b'', 9, [(1, 1), (1, 3), (3, 5), (5, 7), (0, 0), (0, 2), (2, 6), (6, 8)])],
          [(''b'', [(1, 0), (3, 1), (5, 1), (7, 1), (0, 0), (2, 1), (6, 2), (8, 1)])])
   \<and> list_all (\<lambda>(start, endp).
         map_of [(1, 0), (3, 1), (5, 1), (7, 1), (0, 0), (2, 1), (6, 2), (8, 1)] endp =
           Some (if start = endp \<and> (2::int) \<le> start then endp div 2 else (endp - start) div 2))
       [(1, 1), (1, 3), (3, 5), (5, 7), (0, 0), (0, 2), (2, 6), (6, 8)]"
proof -
  let ?self = "two_consumers 2"
  let ?b = "mk_tensor ''b'' [''s1'', ''s2'']"
  have U: "unroll_factor ?self = 2" by (simp add: two_consumers_def)
  have n: "tensor_name ?b = ''b''" by (simp add: mk_tensor_def)
  have h2: "distinct (map tensor_name (GetProducerTensors ?self))"
    by (simp add: two_consumers_producers)
  have h3: "?b \<in> set (GetProducerTensors ?self)" by (simp add: two_consumers_producers)
  from reuse_buffer_lengths_recorded[OF two_consumers_run h2 h3]
  have "\<forall>(start, endp) \<in> set [(1, 1), (1, 3), (3, 5), (5, 7), (0, 0), (0, 2), (2, 6), (6, 8)].
         map_of [(1, 0), (3, 1), (5, 1), (7, 1), (0, 0), (2, 1), (6, 2), (8, 1)] endp =
           Some (if start = endp \<and> (2::int) \<le> start then endp div 2 else (endp - start) div 2)"
    by (simp add: U n)
  then show ?thesis unfolding list_all_iff using two_consumers_run by blast
qed

text \<open>
  With unroll factor 1 and a consumer delayed by 3 cycles the buffer of \<open>b\<close> has the single
  link \<open>(3, 3)\<close>. Its start is not below the unroll factor, so the claim asks for the
  length \<open>(3 - 3) / 1 = 0\<close>; the code records \<open>3 // 1 = 3\<close>.
\<close>

theorem reuse_buffer_lengths_counterexample:
  "GetReuseBuffers (one_consumer 1 3) = Inr ([(''b'', 4, [(3, 3)])], [(''b'', [(3, 3)])])
   \<and> \<not> (3::int) < 1 \<and> (3 - 3) div 1 \<noteq> (3::int)"
  using one_consumer_run by simp

text \<open>
  Claim C10. For a producer tensor \<open>b\<close> with at least one consuming stage, each reading
  \<open>b\<close> through a non-empty window with a stored delay, and an unroll factor \<open>U \<ge> 1\<close>:
  \<open>A\<^sup>\<dagger>\<close> contains for each consuming stage the \<open>U\<close> integers \<open>delay, \<dots>, delay + U - 1\<close>,
  every residue class modulo \<open>U\<close> is inhabited, none of the \<open>U\<close> chains is empty, and
  \<open>_GetBuffer\<close> returns (its \<open>chain[0]\<close> does not fail). The replicated variant has no lane
  union: with replication factor 2 and one consumer at the origin its chains are
  \<open>[(), (0,)]\<close>, on which the unguarded loop would raise \<open>IndexError\<close> and the guarded one
  returns the buffer \<open>[1, (0, 0)]\<close>.
\<close>

theorem chains_never_empty:
  assumes "child_stages stgs b = Inr ss" and "ss \<noteq> []" and "1 \<le> U"
      and "\<forall>s \<in> set ss. consumer_ok tsize (tensor_name b) s"
  shows "\<exists>A chains buf.
           A_dag stgs tsize b U = Inr A
         \<and> (\<forall>s \<in> set ss. \<forall>i \<in> {0..<U}. delay_of (tensor_name b) s + i \<in> A)
         \<and> (\<forall>r \<in> {0..<U}. \<exists>x \<in> A. x mod U = r)
         \<and> GetChains stgs tsize b U = Inr chains
         \<and> length chains = nat U \<and> (\<forall>c \<in> set chains. c \<noteq> [])
         \<and> GetBuffer stgs tsize b U = Inr buf
         \<and> get_replicated_reuse_chains (stages (one_consumer 2 0)) [4, 0] (mk_tensor ''b'' [''s'']) 2
             = Inr [[], [0]]
         \<and> map_err chain_links [[], [0]] = Inl IndexError
         \<and> get_replicated_reuse_buffer (stages (one_consumer 2 0)) [4, 0] (mk_tensor ''b'' [''s'']) 2
             = Inr (1, [(0, 0)])"
proof -
  let ?A = "unrolled_taps tsize (tensor_name b) U ss"
  have A: "A_dag stgs tsize b U = Inr ?A" using assms by (rule A_dag_ok)
  have lanes: "\<forall>s \<in> set ss. \<forall>i \<in> {0..<U}. delay_of (tensor_name b) s + i \<in> ?A"
  proof (intro ballI)
    fix s i assume s: "s \<in> set ss" and i: "i \<in> {0..<U}"
    then have "consumer_ok tsize (tensor_name b) s" "0 \<le> i" "i < U" using assms(4) by auto
    with s show "delay_of (tensor_name b) s + i \<in> ?A" by (rule lanes_in_taps)
  qed
  have inh: "\<forall>r \<in> {0..<U}. \<exists>x \<in> ?A. x mod U = r"
  proof
    fix r assume "r \<in> {0..<U}"
    then have "0 \<le> r" "r < U" by auto
    with assms(2,3,4) show "\<exists>x \<in> ?A. x mod U = r" by (rule class_inhabited)
  qed
  have ch: "GetChains stgs tsize b U = Inr (chains_of ?A U)"
    by (simp add: GetChains_def A bind_err_def)
  have len: "length (chains_of ?A U) = nat U"
    using assms(3) by (simp add: chains_of_def)
  have ne: "\<forall>c \<in> set (chains_of ?A U). c \<noteq> []"
  proof
    fix c assume "c \<in> set (chains_of ?A U)"
    then obtain r where r: "r \<in> {0..<U}" and c: "c = sorted_list_of_set {x \<in> ?A. x mod U = r}"
      by (auto simp: chains_of_def)
    have "{x \<in> ?A. x mod U = r} \<noteq> {}" using inh r by blast
    moreover have "finite {x \<in> ?A. x mod U = r}" using finite_unrolled_taps by simp
    ultimately show "c \<noteq> []" using c by simp
  qed
  have buf: "GetBuffer stgs tsize b U = Inr (spec_buffer ?A U)"
    using assms by (rule GetBuffer_ok)
  have r1: "get_replicated_reuse_chains (stages (one_consumer 2 0)) [4, 0] (mk_tensor ''b'' [''s'']) 2
             = Inr [[], [0]]" by code_simp
  have r2: "map_err chain_links [[], [0]] = Inl IndexError" by simp
  have r3: "get_replicated_reuse_buffer (stages (one_consumer 2 0)) [4, 0] (mk_tensor ''b'' [''s'']) 2
             = Inr (1, [(0, 0)])" by code_simp
  show ?thesis
    by (intro exI[of _ ?A] exI[of _ "chains_of ?A U"] exI[of _ "spec_buffer ?A U"] conjI
              A lanes inh ch len ne buf r1 r2 r3)
qed

theorem chains_never_empty_witness:
  "A_dag (stages (two_consumers 2)) [4, 0] (mk_tensor ''b'' [''s1'', ''s2'']) 2
     = Inr {0, 1, 2, 3, 5, 6, 7, 8}
   \<and> GetChains (stages (two_consumers 2)) [4, 0] (mk_tensor ''b'' [''s1'', ''s2'']) 2
     = Inr [[1, 3, 5, 7], [0, 2, 6, 8]]
   \<and> GetBuffer (stages (two_consumers 2)) [4, 0] (mk_tensor ''b'' [''s1'', ''s2'']) 2
     = Inr (9, [(1, 1), (1, 3), (3, 5), (5, 7), (0, 0), (0, 2), (2, 6), (6, 8)])"
proof -
  let ?ss = "[mk_stage ''s1'' ''b'' [[-1, 0], [0, 0], [1, 0], [0, 1]] [-1, 0, 1, 4] 2,
              mk_stage ''s2'' ''b'' [[0, 0]] [0] 0]"
  have h2: "?ss \<noteq> []" by simp
  have h3: "(1::int) \<le> 2" by simp
  have h4: "\<forall>s \<in> set ?ss. consumer_ok [4, 0] (tensor_name (mk_tensor ''b'' [''s1'', ''s2''])) s"
    using two_consumers_ok by (simp add: mk_tensor_def)
  from chains_never_empty[OF two_consumers_children h2 h3 h4]
  have "\<exists>buf. GetBuffer (stages (two_consumers 2)) [4, 0] (mk_tensor ''b'' [''s1'', ''s2'']) 2 = Inr buf"
    by (elim exE conjE) (rule exI)
  moreover have "A_dag (stages (two_consumers 2)) [4, 0] (mk_tensor ''b'' [''s1'', ''s2'']) 2
     = Inr {0, 1, 2, 3, 5, 6, 7, 8}" by code_simp
  moreover have "GetChains (stages (two_consumers 2)) [4, 0] (mk_tensor ''b'' [''s1'', ''s2'']) 2
     = Inr [[1, 3, 5, 7], [0, 2, 6, 8]]" by code_simp
  moreover have "GetBuffer (stages (two_consumers 2)) [4, 0] (mk_tensor ''b'' [''s1'', ''s2'']) 2
     = Inr (9, [(1, 1), (1, 3), (3, 5), (5, 7), (0, 0), (0, 2), (2, 6), (6, 8)])" by code_simp
  ultimately show ?thesis by simp
qed

section \<open>Properties of the replicated variants\<close>














section \<open>Properties of the forwarding descriptors\<close>





















section \<open>Forwarding completeness\<close>








section \<open>Properties of the scheduler\<close>




















subsection \<open>The scheduling loop: delays and chronological order\<close>











end
